theory Spec2Isabelle
  imports Main "HOL-Library.Signed_Division"
begin

section \<open>C integers, faults and outcomes\<close>

text \<open>
  The fields of the structures of \<^verbatim>\<open>pa3.c\<close> are C \<^verbatim>\<open>int\<close>s. They are modelled as
  mathematical integers; an arithmetic step whose result leaves the range of a 32-bit
  \<^verbatim>\<open>int\<close> is undefined behaviour in C and is a fault of the model. The operator
  \<^verbatim>\<open>%\<close> of C truncates towards zero: it is \<open>smod\<close>.
\<close>

definition INT_MAX :: int where
  "INT_MAX = 2147483647"

definition INT_MIN :: int where
  "INT_MIN = - 2147483648"

definition is_c_int :: "int \<Rightarrow> bool" where
  "is_c_int x \<longleftrightarrow> INT_MIN \<le> x \<and> x \<le> INT_MAX"

datatype fault = Null_Deref | Out_Of_Bounds | Div_By_Zero | Int_Overflow | Empty_List
  | Invalid_Read

text \<open>
  What a call has done when its fuel (the number of loop iterations or statements it may
  execute) is used up: it has returned a value in a final state, it is suspended by the
  operating system in the state shown, it is still executing (spinning in a busy-wait
  loop, say) in the state shown, or it has faulted.
\<close>

datatype ('r, 's) outcome = Returned 'r 's | Suspended 's | Unfinished 's | Fault fault

text \<open>
  Modelled from the spec: \<^verbatim>\<open>compare_and_swap\<close> is declared in \<^verbatim>\<open>atomic.h\<close>, which is
  not among the sources. It is the atomic primitive that writes the new value only if the
  cell holds the expected one; the loops \<^verbatim>\<open>while (compare_and_swap(&held, 0, 1));\<close> of
  the source spin while its result is nonzero, so the result is the value found in the
  cell. The model returns that value and the new content of the cell.
\<close>

definition compare_and_swap :: "int \<Rightarrow> int \<Rightarrow> int \<Rightarrow> int \<times> int" where
  "compare_and_swap cell old new = (cell, if cell = old then new else cell)"


section \<open>The spinlock\<close>

text \<open>
  \<^verbatim>\<open>struct spinlock\<close>; its flag \<^verbatim>\<open>held\<close> is written \<open>spin_held\<close>, the ring buffer having
  a field of the same name.
\<close>

record spinlock =
  spin_held :: int

text \<open>\<^verbatim>\<open>init_spinlock\<close>, lines 46 to 50, and \<^verbatim>\<open>release_spinlock\<close>, lines 77 to 81.\<close>

definition init_spinlock :: "spinlock \<Rightarrow> spinlock" where
  "init_spinlock l = l\<lparr>spin_held := 0\<rparr>"

definition release_spinlock :: "spinlock \<Rightarrow> spinlock" where
  "release_spinlock l = l\<lparr>spin_held := 0\<rparr>"

text \<open>
  One evaluation of the condition of the loop of \<^verbatim>\<open>acquire_spinlock\<close>, line 63: the
  lock after it, and whether the loop is left.
\<close>

definition acquire_spinlock_step :: "spinlock \<Rightarrow> spinlock \<times> bool" where
  "acquire_spinlock_step l =
     (case compare_and_swap (spin_held l) 0 1 of (r, h) \<Rightarrow> (l\<lparr>spin_held := h\<rparr>, r = 0))"

text \<open>\<^verbatim>\<open>acquire_spinlock\<close>, lines 61 to 66, run without interference.\<close>

fun acquire_spinlock :: "nat \<Rightarrow> spinlock \<Rightarrow> (unit, spinlock) outcome" where
  "acquire_spinlock 0 l = Unfinished l"
| "acquire_spinlock (Suc fuel) l =
     (case acquire_spinlock_step l of
        (l', done) \<Rightarrow> if done then Returned () l' else acquire_spinlock fuel l')"

text \<open>
  Threads using the one spinlock as it is meant to be used: a thread is outside, or in the
  loop of \<^verbatim>\<open>acquire_spinlock\<close>, or inside its critical section, which it leaves by
  \<^verbatim>\<open>release_spinlock\<close>.
\<close>

datatype stask = Spin_outside | Spin_acquiring | Spin_inside

record ssystem =
  lock :: spinlock
  stask :: "nat \<Rightarrow> stask"

datatype sevent = Spin_call nat | Spin_try nat | Spin_release nat

fun ssys_step :: "sevent \<Rightarrow> ssystem \<Rightarrow> ssystem" where
  "ssys_step (Spin_call t) s =
     (if stask s t = Spin_outside then s\<lparr>stask := (stask s)(t := Spin_acquiring)\<rparr> else s)"
| "ssys_step (Spin_try t) s =
     (if stask s t = Spin_acquiring
      then
        (case acquire_spinlock_step (lock s) of
           (l', done) \<Rightarrow>
             s\<lparr>lock := l', stask := (stask s)(t := if done then Spin_inside else Spin_acquiring)\<rparr>)
      else s)"
| "ssys_step (Spin_release t) s =
     (if stask s t = Spin_inside
      then s\<lparr>lock := release_spinlock (lock s), stask := (stask s)(t := Spin_outside)\<rparr>
      else s)"

fun ssys_run :: "sevent list \<Rightarrow> ssystem \<Rightarrow> ssystem" where
  "ssys_run [] s = s"
| "ssys_run (e # es) s = ssys_run es (ssys_step e s)"

text \<open>The system after \<^verbatim>\<open>init_spinlock\<close> on a lock of any content, every thread outside.\<close>

definition sboot :: "spinlock \<Rightarrow> ssystem" where
  "sboot l = \<lparr>lock = init_spinlock l, stask = (\<lambda>t. Spin_outside)\<rparr>"

definition spin_inv :: "ssystem \<Rightarrow> bool" where
  "spin_inv s \<longleftrightarrow>
     (spin_held (lock s) = 0 \<longrightarrow> (\<forall>t. stask s t \<noteq> Spin_inside)) \<and>
     (\<forall>t t'. stask s t = Spin_inside \<longrightarrow> stask s t' = Spin_inside \<longrightarrow> t = t')"


section \<open>The ring buffer\<close>

text \<open>
  \<^verbatim>\<open>struct ringbuffer\<close>. The pointer \<^verbatim>\<open>slots\<close> is \<open>None\<close> when it is \<^verbatim>\<open>NULL\<close> and
  otherwise holds the content of the block it points to. The field \<^verbatim>\<open>in\<close> is written
  \<open>in'\<close>.
\<close>

record ringbuffer =
  nr_slots :: int
  slots :: "int list option"
  held :: int
  count :: int
  out :: int
  in' :: int

text \<open>
  \<^verbatim>\<open>init_ringbuffer\<close>, lines 313 to 324; \<open>m\<close> is what \<^verbatim>\<open>malloc\<close> returned: \<open>None\<close>
  for \<^verbatim>\<open>NULL\<close>, or a block of \<^verbatim>\<open>nr_slots\<close> cells of arbitrary content.
\<close>

definition init_ringbuffer :: "int list option \<Rightarrow> int \<Rightarrow> ringbuffer \<Rightarrow> int \<times> ringbuffer" where
  "init_ringbuffer m n rb =
     (0, rb\<lparr>nr_slots := n, slots := m, in' := 0, out := 0, count := 0, held := 0\<rparr>)"

subsection \<open>enqueue, statement by statement\<close>

text \<open>
  The control points of \<^verbatim>\<open>enqueue_into_ringbuffer\<close> are named after the lines of the
  source. One step executes one statement; each busy-wait loop takes one step for each
  evaluation of its condition.
\<close>

datatype enq_pc = Enq_245 | Enq_247 | Enq_249 | Enq_251 | Enq_254 | Enq_255 | Enq_256
  | Enq_257 | Enq_ret

fun enqueue_step :: "int \<Rightarrow> enq_pc \<Rightarrow> ringbuffer \<Rightarrow> fault + (enq_pc \<times> ringbuffer)" where
  "enqueue_step v Enq_245 rb =
     Inr (if count rb = nr_slots rb then Enq_245 else Enq_247, rb)"
| "enqueue_step v Enq_247 rb =
     (case compare_and_swap (held rb) 0 1 of
        (r, h) \<Rightarrow> Inr (if r \<noteq> 0 then Enq_247 else Enq_249, rb\<lparr>held := h\<rparr>))"
| "enqueue_step v Enq_249 rb =
     Inr (if count rb = nr_slots rb then Enq_251 else Enq_254, rb)"
| "enqueue_step v Enq_251 rb = Inr (Enq_245, rb\<lparr>held := 0\<rparr>)"
| "enqueue_step v Enq_254 rb =
     (case slots rb of
        None \<Rightarrow> Inl Null_Deref
      | Some xs \<Rightarrow>
          if 0 \<le> in' rb \<and> in' rb < int (length xs)
          then Inr (Enq_255, rb\<lparr>slots := Some (xs[nat (in' rb) := v])\<rparr>)
          else Inl Out_Of_Bounds)"
| "enqueue_step v Enq_255 rb =
     (if \<not> is_c_int (in' rb + 1) then Inl Int_Overflow
      else if nr_slots rb = 0 then Inl Div_By_Zero
      else Inr (Enq_256, rb\<lparr>in' := (in' rb + 1) smod nr_slots rb\<rparr>))"
| "enqueue_step v Enq_256 rb =
     (if is_c_int (count rb + 1) then Inr (Enq_257, rb\<lparr>count := count rb + 1\<rparr>)
      else Inl Int_Overflow)"
| "enqueue_step v Enq_257 rb = Inr (Enq_ret, rb\<lparr>held := 0\<rparr>)"
| "enqueue_step v Enq_ret rb = Inr (Enq_ret, rb)"

text \<open>A call of \<^verbatim>\<open>enqueue_into_ringbuffer\<close> that no other thread interferes with.\<close>

fun enqueue_run :: "nat \<Rightarrow> int \<Rightarrow> enq_pc \<Rightarrow> ringbuffer \<Rightarrow> (unit, ringbuffer) outcome" where
  "enqueue_run fuel v Enq_ret rb = Returned () rb"
| "enqueue_run 0 v pc rb = Unfinished rb"
| "enqueue_run (Suc fuel) v pc rb =
     (case enqueue_step v pc rb of
        Inl f \<Rightarrow> Fault f
      | Inr (pc', rb') \<Rightarrow> enqueue_run fuel v pc' rb')"

definition enqueue_into_ringbuffer :: "nat \<Rightarrow> int \<Rightarrow> ringbuffer \<Rightarrow> (unit, ringbuffer) outcome" where
  "enqueue_into_ringbuffer fuel v rb = enqueue_run fuel v Enq_245 rb"

subsection \<open>dequeue, statement by statement\<close>

text \<open>
  The control points of \<^verbatim>\<open>dequeue_from_ringbuffer\<close>; the local variable \<^verbatim>\<open>tmp\<close> travels
  with the control point, and the last one carries the value returned.
\<close>

datatype deq_pc = Deq_273 | Deq_275 | Deq_277 | Deq_279 | Deq_282 | Deq_283 int | Deq_284 int
  | Deq_285 int | Deq_286 int | Deq_ret int

fun dequeue_step :: "deq_pc \<Rightarrow> ringbuffer \<Rightarrow> fault + (deq_pc \<times> ringbuffer)" where
  "dequeue_step Deq_273 rb = Inr (if count rb = 0 then Deq_273 else Deq_275, rb)"
| "dequeue_step Deq_275 rb =
     (case compare_and_swap (held rb) 0 1 of
        (r, h) \<Rightarrow> Inr (if r \<noteq> 0 then Deq_275 else Deq_277, rb\<lparr>held := h\<rparr>))"
| "dequeue_step Deq_277 rb = Inr (if count rb = 0 then Deq_279 else Deq_282, rb)"
| "dequeue_step Deq_279 rb = Inr (Deq_273, rb\<lparr>held := 0\<rparr>)"
| "dequeue_step Deq_282 rb = Inr (Deq_283 (out rb), rb)"
| "dequeue_step (Deq_283 tmp) rb =
     (if \<not> is_c_int (out rb + 1) then Inl Int_Overflow
      else if nr_slots rb = 0 then Inl Div_By_Zero
      else Inr (Deq_284 tmp, rb\<lparr>out := (out rb + 1) smod nr_slots rb\<rparr>))"
| "dequeue_step (Deq_284 tmp) rb =
     (if is_c_int (count rb - 1) then Inr (Deq_285 tmp, rb\<lparr>count := count rb - 1\<rparr>)
      else Inl Int_Overflow)"
| "dequeue_step (Deq_285 tmp) rb = Inr (Deq_286 tmp, rb\<lparr>held := 0\<rparr>)"
| "dequeue_step (Deq_286 tmp) rb =
     (case slots rb of
        None \<Rightarrow> Inl Null_Deref
      | Some xs \<Rightarrow>
          if 0 \<le> tmp \<and> tmp < int (length xs) then Inr (Deq_ret (xs ! nat tmp), rb)
          else Inl Out_Of_Bounds)"
| "dequeue_step (Deq_ret r) rb = Inr (Deq_ret r, rb)"

fun dequeue_run :: "nat \<Rightarrow> deq_pc \<Rightarrow> ringbuffer \<Rightarrow> (int, ringbuffer) outcome" where
  "dequeue_run fuel (Deq_ret r) rb = Returned r rb"
| "dequeue_run 0 pc rb = Unfinished rb"
| "dequeue_run (Suc fuel) pc rb =
     (case dequeue_step pc rb of
        Inl f \<Rightarrow> Fault f
      | Inr (pc', rb') \<Rightarrow> dequeue_run fuel pc' rb')"

definition dequeue_from_ringbuffer :: "nat \<Rightarrow> ringbuffer \<Rightarrow> (int, ringbuffer) outcome" where
  "dequeue_from_ringbuffer fuel rb = dequeue_run fuel Deq_273 rb"

subsection \<open>Threads sharing the buffer\<close>

text \<open>
  \<^verbatim>\<open>struct ringbuffer ringbuffer = {};\<close> (line 234): the buffer before
  \<^verbatim>\<open>init_ringbuffer\<close>.
\<close>

definition ringbuffer0 :: ringbuffer where
  "ringbuffer0 = \<lparr>nr_slots = 0, slots = None, held = 0, count = 0, out = 0, in' = 0\<rparr>"

text \<open>
  Any number of threads, named by numbers, call \<^verbatim>\<open>enqueue_into_ringbuffer\<close> and
  \<^verbatim>\<open>dequeue_from_ringbuffer\<close> on the one buffer. A thread is outside any call, or
  inside one at a control point. The scheduler picks a thread, which executes one
  statement. The values passed to the calls of enqueue and the values returned by the
  calls of dequeue are recorded in the order of the calls and of the returns.
\<close>

datatype task = Idle | Enqueue int enq_pc | Dequeue deq_pc

record system =
  buffer :: ringbuffer
  task :: "nat \<Rightarrow> task"
  enqueued :: "int list"
  dequeued :: "int list"

datatype event = Call_enqueue nat int | Call_dequeue nat | Step nat

fun sys_step :: "event \<Rightarrow> system \<Rightarrow> fault + system" where
  "sys_step (Call_enqueue t v) s =
     Inr (if task s t = Idle
          then s\<lparr>task := (task s)(t := Enqueue v Enq_245), enqueued := enqueued s @ [v]\<rparr>
          else s)"
| "sys_step (Call_dequeue t) s =
     Inr (if task s t = Idle then s\<lparr>task := (task s)(t := Dequeue Deq_273)\<rparr> else s)"
| "sys_step (Step t) s =
     (case task s t of
        Idle \<Rightarrow> Inr s
      | Enqueue v Enq_ret \<Rightarrow> Inr (s\<lparr>task := (task s)(t := Idle)\<rparr>)
      | Enqueue v pc \<Rightarrow>
          (case enqueue_step v pc (buffer s) of
             Inl f \<Rightarrow> Inl f
           | Inr (pc', rb') \<Rightarrow> Inr (s\<lparr>buffer := rb', task := (task s)(t := Enqueue v pc')\<rparr>))
      | Dequeue (Deq_ret r) \<Rightarrow>
          Inr (s\<lparr>task := (task s)(t := Idle), dequeued := dequeued s @ [r]\<rparr>)
      | Dequeue pc \<Rightarrow>
          (case dequeue_step pc (buffer s) of
             Inl f \<Rightarrow> Inl f
           | Inr (pc', rb') \<Rightarrow> Inr (s\<lparr>buffer := rb', task := (task s)(t := Dequeue pc')\<rparr>)))"

fun sys_run :: "event list \<Rightarrow> system \<Rightarrow> fault + system" where
  "sys_run [] s = Inr s"
| "sys_run (e # es) s = (case sys_step e s of Inl f \<Rightarrow> Inl f | Inr s' \<Rightarrow> sys_run es s')"

text \<open>The system after \<^verbatim>\<open>init_ringbuffer(n)\<close>, no thread inside a call.\<close>

definition boot :: "int list option \<Rightarrow> int \<Rightarrow> system" where
  "boot m n = \<lparr>buffer = snd (init_ringbuffer m n ringbuffer0), task = (\<lambda>t. Idle),
     enqueued = [], dequeued = []\<rparr>"

subsection \<open>Well-formed buffer states and the invariants of the system\<close>

text \<open>
  A buffer that \<^verbatim>\<open>init_ringbuffer\<close> has set up with at least one slot and that no thread
  is working on: the lock is free, the block has \<^verbatim>\<open>nr_slots\<close> cells, and the count and
  both indices are in range.
\<close>

definition rb_ready :: "ringbuffer \<Rightarrow> bool" where
  "rb_ready rb \<longleftrightarrow>
     is_c_int (nr_slots rb) \<and> held rb = 0 \<and>
     (case slots rb of None \<Rightarrow> False | Some xs \<Rightarrow> int (length xs) = nr_slots rb) \<and>
     0 \<le> count rb \<and> count rb \<le> nr_slots rb \<and>
     0 \<le> in' rb \<and> in' rb < nr_slots rb \<and> 0 \<le> out rb \<and> out rb < nr_slots rb"

text \<open>Two buffer states that differ at most in the lock flag \<^verbatim>\<open>held\<close>.\<close>

definition same_contents :: "ringbuffer \<Rightarrow> ringbuffer \<Rightarrow> bool" where
  "same_contents rb rb' \<longleftrightarrow>
     nr_slots rb' = nr_slots rb \<and> slots rb' = slots rb \<and> count rb' = count rb \<and>
     out rb' = out rb \<and> in' rb' = in' rb"

text \<open>
  A thread is in the protected section from the successful compare-and-swap to the
  statement that clears \<^verbatim>\<open>held\<close>.
\<close>

fun in_cs :: "task \<Rightarrow> bool" where
  "in_cs Idle = False"
| "in_cs (Enqueue v pc) =
     (pc = Enq_249 \<or> pc = Enq_251 \<or> pc = Enq_254 \<or> pc = Enq_255 \<or> pc = Enq_256 \<or>
      pc = Enq_257)"
| "in_cs (Dequeue pc) =
     (case pc of Deq_277 \<Rightarrow> True | Deq_279 \<Rightarrow> True | Deq_282 \<Rightarrow> True
      | Deq_283 tmp \<Rightarrow> True | Deq_284 tmp \<Rightarrow> True | Deq_285 tmp \<Rightarrow> True | _ \<Rightarrow> False)"

text \<open>
  What a thread knows at its control point: past the re-check of line 249 the buffer is
  not full, past the re-check of line 277 it is not empty, and \<^verbatim>\<open>tmp\<close> is an index of
  the block.
\<close>

fun task_ok :: "ringbuffer \<Rightarrow> task \<Rightarrow> bool" where
  "task_ok rb Idle = True"
| "task_ok rb (Enqueue v pc) =
     (if pc = Enq_254 \<or> pc = Enq_255 \<or> pc = Enq_256 then count rb < nr_slots rb else True)"
| "task_ok rb (Dequeue pc) =
     (case pc of
        Deq_282 \<Rightarrow> 0 < count rb
      | Deq_283 tmp \<Rightarrow> 0 < count rb \<and> 0 \<le> tmp \<and> tmp < nr_slots rb
      | Deq_284 tmp \<Rightarrow> 0 < count rb \<and> 0 \<le> tmp \<and> tmp < nr_slots rb
      | Deq_285 tmp \<Rightarrow> 0 \<le> tmp \<and> tmp < nr_slots rb
      | Deq_286 tmp \<Rightarrow> 0 \<le> tmp \<and> tmp < nr_slots rb
      | _ \<Rightarrow> True)"

definition lock_inv :: "system \<Rightarrow> bool" where
  "lock_inv s \<longleftrightarrow>
     (held (buffer s) = 0 \<or> held (buffer s) = 1) \<and>
     (held (buffer s) = 0 \<longrightarrow> (\<forall>t. \<not> in_cs (task s t))) \<and>
     (\<forall>t t'. in_cs (task s t) \<longrightarrow> in_cs (task s t') \<longrightarrow> t = t')"

definition data_inv :: "int \<Rightarrow> system \<Rightarrow> bool" where
  "data_inv N s \<longleftrightarrow>
     nr_slots (buffer s) = N \<and>
     0 \<le> count (buffer s) \<and> count (buffer s) \<le> N \<and>
     0 \<le> in' (buffer s) \<and> in' (buffer s) < max 1 N \<and>
     0 \<le> out (buffer s) \<and> out (buffer s) < max 1 N \<and>
     (\<forall>t. task_ok (buffer s) (task s t))"

definition sys_inv :: "int \<Rightarrow> system \<Rightarrow> bool" where
  "sys_inv N s \<longleftrightarrow> lock_inv s \<and> data_inv N s"

definition slots_inv :: "int \<Rightarrow> system \<Rightarrow> bool" where
  "slots_inv N s \<longleftrightarrow>
     (case slots (buffer s) of None \<Rightarrow> False | Some xs \<Rightarrow> int (length xs) = N)"

text \<open>
  A schedule on which the read of line 286, which follows the release of the lock in
  line 285, meets a write of the producer. Thread 0 enqueues 1 into a buffer of one
  slot; thread 1 runs its dequeue up to line 286; thread 0 enqueues 2; thread 1 reads.
\<close>

definition race_schedule :: "event list" where
  "race_schedule =
     Call_enqueue 0 1 # replicate 8 (Step 0) @
     Call_dequeue 1 # replicate 7 (Step 1) @
     Call_enqueue 0 2 # replicate 8 (Step 0) @
     replicate 2 (Step 1)"


section \<open>The blocking mutex\<close>

text \<open>
  \<^verbatim>\<open>struct mutex\<close>. The list \<^verbatim>\<open>Q\<close> is the sequence of the \<^verbatim>\<open>struct thread\<close> records
  linked on it, named by their addresses, the first entry first. The flag \<^verbatim>\<open>held\<close> of
  the mutex is written \<open>mutex_held\<close>, the ring buffer having a field of the same name.
\<close>

type_synonym pthread_t = nat
type_synonym addr = nat

text \<open>
  Modelled from the spec: \<^verbatim>\<open>list_head.h\<close>, which declares the list operations, is not
  among the sources. The wait queue is an ordered sequence: \<^verbatim>\<open>list_add_tail\<close> appends
  an entry at its tail, \<^verbatim>\<open>list_first_entry\<close> is its head (there is none on an empty
  list) and \<^verbatim>\<open>list_del_init\<close> unlinks an entry.
\<close>

definition list_add_tail :: "addr \<Rightarrow> addr list \<Rightarrow> addr list" where
  "list_add_tail new q = q @ [new]"

definition list_first_entry :: "addr list \<Rightarrow> addr option" where
  "list_first_entry q = (case q of [] \<Rightarrow> None | a # rest \<Rightarrow> Some a)"

definition list_del_init :: "addr \<Rightarrow> addr list \<Rightarrow> addr list" where
  "list_del_init entry q = remove1 entry q"

record mutex =
  Q :: "addr list"
  S :: int
  mutex_held :: int

text \<open>
  The mutex together with what its operations touch besides: the heap of
  \<^verbatim>\<open>struct thread\<close> records (absent, allocated with \<^verbatim>\<open>pthread\<close> not yet written, or
  with the \<^verbatim>\<open>pthread\<close> written), and the threads for which a \<^verbatim>\<open>SIGINT\<close> sent by
  \<^verbatim>\<open>pthread_kill\<close> is pending. Two histories are kept besides: the threads that
  linked themselves on the queue, and the threads that were sent the signal, each in the
  order of the events.
\<close>

record world = mutex +
  heap :: "addr \<rightharpoonup> pthread_t option"
  pending :: "pthread_t set"
  parked :: "pthread_t list"
  woken :: "pthread_t list"

text \<open>
  Modelled from the spec: the signal calls are those of the operating system. A thread
  that has registered to wait does not miss a wake delivered after the registration,
  and a wake is aimed at one thread: with \<^verbatim>\<open>SIGINT\<close> blocked (lines 160 to 162) a
  signal sent to the thread by \<^verbatim>\<open>pthread_kill\<close> stays pending, and \<^verbatim>\<open>sigwait\<close>
  returns once the signal is pending for the caller, consuming it, and suspends the
  caller until then (\<open>None\<close>). The signal mask of a thread is not part of the state.
\<close>

definition pthread_kill :: "pthread_t \<Rightarrow> world \<Rightarrow> world" where
  "pthread_kill p w = w\<lparr>pending := insert p (pending w), woken := woken w @ [p]\<rparr>"

definition sigwait :: "pthread_t \<Rightarrow> world \<Rightarrow> world option" where
  "sigwait self w =
     (if self \<in> pending w then Some (w\<lparr>pending := pending w - {self}\<rparr>) else None)"

definition world0 :: world where
  "world0 = \<lparr>Q = [], S = 0, mutex_held = 0, heap = Map.empty, pending = {},
     parked = [], woken = []\<rparr>"

text \<open>\<^verbatim>\<open>init_mutex\<close>, lines 106 to 114.\<close>

definition init_mutex :: "world \<Rightarrow> world" where
  "init_mutex w = w\<lparr>Q := [], mutex_held := 0, S := 1\<rparr>"

subsection \<open>acquire, statement by statement\<close>

text \<open>
  The control points of \<^verbatim>\<open>acquire_mutex\<close>, named after the lines of the source. The
  caller is the thread \<open>self\<close> (what \<^verbatim>\<open>pthread_self\<close> returns) and \<open>new\<close> is what
  \<^verbatim>\<open>malloc\<close> returns in line 152. At line 169 the step waits while no signal is pending.
\<close>

datatype acq_pc = Acq_152 | Acq_155 | Acq_157 | Acq_158 | Acq_160 | Acq_163 | Acq_164
  | Acq_165 | Acq_169 | Acq_175 | Acq_177 | Acq_183 | Acq_184 | Acq_ret

fun acquire_step :: "pthread_t \<Rightarrow> addr option \<Rightarrow> acq_pc \<Rightarrow> world \<Rightarrow> fault + (acq_pc \<times> world)" where
  "acquire_step self new Acq_152 w =
     Inr (Acq_155, case new of None \<Rightarrow> w | Some a \<Rightarrow> w\<lparr>heap := (heap w)(a \<mapsto> None)\<rparr>)"
| "acquire_step self new Acq_155 w =
     (case compare_and_swap (mutex_held w) 0 1 of
        (r, h) \<Rightarrow> Inr (if r \<noteq> 0 then Acq_155 else Acq_157, w\<lparr>mutex_held := h\<rparr>))"
| "acquire_step self new Acq_157 w =
     (if is_c_int (S w - 1) then Inr (Acq_158, w\<lparr>S := S w - 1\<rparr>) else Inl Int_Overflow)"
| "acquire_step self new Acq_158 w = Inr (if S w < 0 then Acq_160 else Acq_183, w)"
| "acquire_step self new Acq_160 w = Inr (Acq_163, w)"
| "acquire_step self new Acq_163 w =
     (case new of
        None \<Rightarrow> Inl Null_Deref
      | Some a \<Rightarrow> Inr (Acq_164, w\<lparr>heap := (heap w)(a \<mapsto> Some self)\<rparr>))"
| "acquire_step self new Acq_164 w =
     (case new of
        None \<Rightarrow> Inl Null_Deref
      | Some a \<Rightarrow>
          Inr (Acq_165, w\<lparr>Q := list_add_tail a (Q w), parked := parked w @ [self]\<rparr>))"
| "acquire_step self new Acq_165 w = Inr (Acq_169, w\<lparr>mutex_held := 0\<rparr>)"
| "acquire_step self new Acq_169 w =
     (case sigwait self w of None \<Rightarrow> Inr (Acq_169, w) | Some w' \<Rightarrow> Inr (Acq_175, w'))"
| "acquire_step self new Acq_175 w =
     (case compare_and_swap (mutex_held w) 0 1 of
        (r, h) \<Rightarrow> Inr (if r \<noteq> 0 then Acq_175 else Acq_177, w\<lparr>mutex_held := h\<rparr>))"
| "acquire_step self new Acq_177 w = Inr (Acq_183, w)"
| "acquire_step self new Acq_183 w =
     Inr (Acq_184, case new of None \<Rightarrow> w | Some a \<Rightarrow> w\<lparr>heap := (heap w)(a := None)\<rparr>)"
| "acquire_step self new Acq_184 w = Inr (Acq_ret, w\<lparr>mutex_held := 0\<rparr>)"
| "acquire_step self new Acq_ret w = Inr (Acq_ret, w)"

text \<open>
  A call that no other thread interferes with, from a control point on: it returns, or is
  suspended in \<^verbatim>\<open>sigwait\<close> (no signal pending, and nobody else running to send one), or
  runs out of fuel, or faults.
\<close>

fun acquire_run :: "nat \<Rightarrow> pthread_t \<Rightarrow> addr option \<Rightarrow> acq_pc \<Rightarrow> world \<Rightarrow> (unit, world) outcome" where
  "acquire_run fuel self new Acq_ret w = Returned () w"
| "acquire_run 0 self new pc w = Unfinished w"
| "acquire_run (Suc fuel) self new pc w =
     (if pc = Acq_169 \<and> sigwait self w = None then Suspended w
      else
        case acquire_step self new pc w of
          Inl f \<Rightarrow> Fault f
        | Inr (pc', w') \<Rightarrow> acquire_run fuel self new pc' w')"

definition acquire_mutex :: "nat \<Rightarrow> pthread_t \<Rightarrow> addr option \<Rightarrow> world \<Rightarrow> (unit, world) outcome" where
  "acquire_mutex fuel self new w = acquire_run fuel self new Acq_152 w"

text \<open>A suspended call resumes in line 169; \<open>a\<close> is its record.\<close>

definition acquire_wait :: "nat \<Rightarrow> pthread_t \<Rightarrow> addr \<Rightarrow> world \<Rightarrow> (unit, world) outcome" where
  "acquire_wait fuel self a w = acquire_run fuel self (Some a) Acq_169 w"

subsection \<open>release, statement by statement\<close>

text \<open>
  The control points of \<^verbatim>\<open>release_mutex\<close>; the local variable \<^verbatim>\<open>next\<close> travels with
  the control point. On an empty list \<^verbatim>\<open>list_first_entry\<close> yields no record, and
  \<^verbatim>\<open>next->pthread\<close> of a record that is freed or not yet written is no thread: faults.
\<close>

datatype rel_pc = Rel_204 | Rel_206 | Rel_207 | Rel_209 | Rel_210 addr | Rel_211 addr
  | Rel_213 addr | Rel_216 | Rel_ret

fun release_step :: "rel_pc \<Rightarrow> world \<Rightarrow> fault + (rel_pc \<times> world)" where
  "release_step Rel_204 w =
     (case compare_and_swap (mutex_held w) 0 1 of
        (r, h) \<Rightarrow> Inr (if r \<noteq> 0 then Rel_204 else Rel_206, w\<lparr>mutex_held := h\<rparr>))"
| "release_step Rel_206 w =
     (if is_c_int (S w + 1) then Inr (Rel_207, w\<lparr>S := S w + 1\<rparr>) else Inl Int_Overflow)"
| "release_step Rel_207 w = Inr (if S w \<le> 0 then Rel_209 else Rel_216, w)"
| "release_step Rel_209 w =
     (case list_first_entry (Q w) of
        None \<Rightarrow> Inl Empty_List
      | Some next \<Rightarrow> Inr (Rel_210 next, w))"
| "release_step (Rel_210 next) w = Inr (Rel_211 next, w\<lparr>Q := list_del_init next (Q w)\<rparr>)"
| "release_step (Rel_211 next) w = Inr (Rel_213 next, w\<lparr>mutex_held := 0\<rparr>)"
| "release_step (Rel_213 next) w =
     (case heap w next of
        Some (Some p) \<Rightarrow> Inr (Rel_216, pthread_kill p w)
      | _ \<Rightarrow> Inl Invalid_Read)"
| "release_step Rel_216 w = Inr (Rel_ret, w\<lparr>mutex_held := 0\<rparr>)"
| "release_step Rel_ret w = Inr (Rel_ret, w)"

fun release_run :: "nat \<Rightarrow> rel_pc \<Rightarrow> world \<Rightarrow> (unit, world) outcome" where
  "release_run fuel Rel_ret w = Returned () w"
| "release_run 0 pc w = Unfinished w"
| "release_run (Suc fuel) pc w =
     (case release_step pc w of
        Inl f \<Rightarrow> Fault f
      | Inr (pc', w') \<Rightarrow> release_run fuel pc' w')"

definition release_mutex :: "nat \<Rightarrow> world \<Rightarrow> (unit, world) outcome" where
  "release_mutex fuel w = release_run fuel Rel_204 w"

subsection \<open>Threads sharing the mutex\<close>

text \<open>
  Any number of threads use the one mutex as it is meant to be used: a thread outside
  calls \<^verbatim>\<open>acquire_mutex\<close>, is inside its critical section from the return of that call
  to its call of \<^verbatim>\<open>release_mutex\<close>, and is outside again when that call returns. The
  scheduler picks a thread, which executes one statement. The call of
  \<^verbatim>\<open>acquire_mutex\<close> comes with the address that \<^verbatim>\<open>malloc\<close> returns to it, which is not
  in use, and executes line 152.
\<close>

datatype mtask = Outside | Acquiring "addr option" acq_pc | Inside | Releasing rel_pc

record msystem =
  shared :: world
  mtask :: "pthread_t \<Rightarrow> mtask"

datatype mevent = Call_acquire pthread_t "addr option" | Call_release pthread_t | Run pthread_t

fun msys_step :: "mevent \<Rightarrow> msystem \<Rightarrow> fault + msystem" where
  "msys_step (Call_acquire t new) s =
     (if mtask s t = Outside \<and> (case new of None \<Rightarrow> True | Some a \<Rightarrow> heap (shared s) a = None)
      then
        (case acquire_step t new Acq_152 (shared s) of
           Inl f \<Rightarrow> Inl f
         | Inr (pc', w') \<Rightarrow> Inr (s\<lparr>shared := w', mtask := (mtask s)(t := Acquiring new pc')\<rparr>))
      else Inr s)"
| "msys_step (Call_release t) s =
     Inr (if mtask s t = Inside then s\<lparr>mtask := (mtask s)(t := Releasing Rel_204)\<rparr> else s)"
| "msys_step (Run t) s =
     (case mtask s t of
        Outside \<Rightarrow> Inr s
      | Inside \<Rightarrow> Inr s
      | Acquiring new Acq_ret \<Rightarrow> Inr (s\<lparr>mtask := (mtask s)(t := Inside)\<rparr>)
      | Acquiring new pc \<Rightarrow>
          (case acquire_step t new pc (shared s) of
             Inl f \<Rightarrow> Inl f
           | Inr (pc', w') \<Rightarrow> Inr (s\<lparr>shared := w', mtask := (mtask s)(t := Acquiring new pc')\<rparr>))
      | Releasing Rel_ret \<Rightarrow> Inr (s\<lparr>mtask := (mtask s)(t := Outside)\<rparr>)
      | Releasing pc \<Rightarrow>
          (case release_step pc (shared s) of
             Inl f \<Rightarrow> Inl f
           | Inr (pc', w') \<Rightarrow> Inr (s\<lparr>shared := w', mtask := (mtask s)(t := Releasing pc')\<rparr>)))"

fun msys_run :: "mevent list \<Rightarrow> msystem \<Rightarrow> fault + msystem" where
  "msys_run [] s = Inr s"
| "msys_run (e # es) s = (case msys_step e s of Inl f \<Rightarrow> Inl f | Inr s' \<Rightarrow> msys_run es s')"

text \<open>The system after \<^verbatim>\<open>init_mutex\<close>, every thread outside.\<close>

definition mboot :: msystem where
  "mboot = \<lparr>shared = init_mutex world0, mtask = (\<lambda>t. Outside)\<rparr>"

text \<open>
  A schedule of four threads. Thread 0 takes the mutex, thread 1 queues behind it, and
  thread 0 releases, stopping before line 216; thread 1 wakes and is inside. Thread 2
  calls acquire, takes the flag \<^verbatim>\<open>held\<close> and decrements \<^verbatim>\<open>S\<close>; thread 0 executes line
  216, which clears the flag that thread 2 holds; thread 1 calls release, takes the flag
  and increments \<^verbatim>\<open>S\<close>; thread 2 finds \<^verbatim>\<open>S\<close> at 0 and returns; thread 3 calls acquire
  and queues; thread 1 finds \<^verbatim>\<open>S\<close> negative and wakes thread 3, which returns.
\<close>

definition double_unlock_schedule :: "mevent list" where
  "double_unlock_schedule =
     Call_acquire 0 (Some 10) # replicate 6 (Run 0) @
     Call_acquire 1 (Some 11) # replicate 7 (Run 1) @
     Call_release 0 # replicate 7 (Run 0) @
     replicate 6 (Run 1) @
     Call_acquire 2 (Some 12) # replicate 2 (Run 2) @
     [Run 0] @
     Call_release 1 # replicate 2 (Run 1) @
     replicate 4 (Run 2) @
     Call_acquire 3 (Some 13) # replicate 7 (Run 3) @
     replicate 7 (Run 1) @
     replicate 6 (Run 3)"

section \<open>Properties of the spinlock\<close>

lemma spin_step_inv: "spin_inv s \<Longrightarrow> spin_inv (ssys_step e s)"
proof (cases e)
  case (Spin_call t)
  then show "spin_inv s \<Longrightarrow> spin_inv (ssys_step e s)"
    by (auto simp: spin_inv_def)
next
  case (Spin_try t)
  then show "spin_inv s \<Longrightarrow> spin_inv (ssys_step e s)"
    by (auto simp: spin_inv_def acquire_spinlock_step_def compare_and_swap_def)
next
  case (Spin_release t)
  then show "spin_inv s \<Longrightarrow> spin_inv (ssys_step e s)"
    by (auto simp: spin_inv_def release_spinlock_def)
qed

lemma spin_run_inv: "spin_inv s \<Longrightarrow> spin_inv (ssys_run es s)"
  by (induction es arbitrary: s) (simp_all add: spin_step_inv)

text \<open>
  Whatever the interleaving, no two threads are inside a critical section of the
  spinlock at the same time.
\<close>

lemma spinlock_mutual_exclusion:
  "stask (ssys_run es (sboot l)) t = Spin_inside \<Longrightarrow>
   stask (ssys_run es (sboot l)) t' = Spin_inside \<Longrightarrow> t = t'"
proof -
  have "spin_inv (sboot l)" by (simp add: spin_inv_def sboot_def)
  then have "spin_inv (ssys_run es (sboot l))" by (rule spin_run_inv)
  then show "stask (ssys_run es (sboot l)) t = Spin_inside \<Longrightarrow>
    stask (ssys_run es (sboot l)) t' = Spin_inside \<Longrightarrow> t = t'"
    unfolding spin_inv_def by blast
qed

text \<open>On a free lock one evaluation of the loop condition takes it.\<close>

lemma acquire_spinlock_free:
  "spin_held l = 0 \<Longrightarrow> acquire_spinlock (Suc fuel) l = Returned () (l\<lparr>spin_held := 1\<rparr>)"
  by (simp add: acquire_spinlock_step_def compare_and_swap_def)


section \<open>Properties of the ring buffer\<close>

subsection \<open>The invariants are preserved by every step of every thread\<close>

lemma smod_nonneg: "0 \<le> a \<Longrightarrow> 0 < b \<Longrightarrow> (a::int) smod b = a mod b"
  by (simp add: signed_modulo_int_def sgn_if)


lemma lock_holder:
  assumes "lock_inv s" "in_cs (task s t)"
  shows "held (buffer s) = 1" and "in_cs (task s t') \<Longrightarrow> t' = t"
  using assms unfolding lock_inv_def by blast+

lemma lock_inv_same:
  assumes "lock_inv s" "in_cs k' = in_cs (task s t)" "held rb' = held (buffer s)"
  shows "lock_inv (s\<lparr>buffer := rb', task := (task s)(t := k')\<rparr>)"
  using assms unfolding lock_inv_def by (simp; metis)

lemma lock_inv_enter:
  assumes "lock_inv s" "held (buffer s) = 0" "held rb' = 1"
  shows "lock_inv (s\<lparr>buffer := rb', task := (task s)(t := k')\<rparr>)"
  using assms unfolding lock_inv_def by simp

lemma lock_inv_leave:
  assumes "lock_inv s" "in_cs (task s t)" "\<not> in_cs k'" "held rb' = 0"
  shows "lock_inv (s\<lparr>buffer := rb', task := (task s)(t := k')\<rparr>)"
  using assms unfolding lock_inv_def by (simp; metis)

lemma task_ok_cong:
  "count rb' = count rb \<Longrightarrow> nr_slots rb' = nr_slots rb \<Longrightarrow> task_ok rb' k = task_ok rb k"
  by (cases k) (auto split: deq_pc.splits)

lemma task_ok_outside:
  "\<not> in_cs k \<Longrightarrow> nr_slots rb' = nr_slots rb \<Longrightarrow> task_ok rb' k = task_ok rb k"
  by (cases k) (auto split: deq_pc.splits)

lemma enq_lock:
  assumes "lock_inv s" "task s t = Enqueue v pc" "enqueue_step v pc (buffer s) = Inr (pc', rb')"
  shows "lock_inv (s\<lparr>buffer := rb', task := (task s)(t := Enqueue v pc')\<rparr>)"
proof (cases "in_cs (Enqueue v pc)")
  case True
  show ?thesis
  proof (cases "in_cs (Enqueue v pc')")
    case True
    with \<open>in_cs (Enqueue v pc)\<close> assms(3) have "held rb' = held (buffer s)"
      by (cases pc) (auto split: if_splits option.splits)
    with True \<open>in_cs (Enqueue v pc)\<close> assms show ?thesis
      by (intro lock_inv_same) auto
  next
    case False
    with \<open>in_cs (Enqueue v pc)\<close> assms(3) have "held rb' = 0"
      by (cases pc) (auto split: if_splits option.splits)
    with False \<open>in_cs (Enqueue v pc)\<close> assms show ?thesis
      by (intro lock_inv_leave) auto
  qed
next
  case False
  show ?thesis
  proof (cases "in_cs (Enqueue v pc')")
    case True
    with False assms(3) have "held (buffer s) = 0 \<and> held rb' = 1"
      by (cases pc) (auto simp: compare_and_swap_def split: if_splits option.splits)
    with assms show ?thesis
      by (intro lock_inv_enter) auto
  next
    case F2: False
    with False assms(3) have "held rb' = held (buffer s)"
      by (cases pc) (auto simp: compare_and_swap_def split: if_splits option.splits)
    with False F2 assms show ?thesis
      by (intro lock_inv_same) auto
  qed
qed


lemma deq_lock:
  assumes "lock_inv s" "task s t = Dequeue pc" "dequeue_step pc (buffer s) = Inr (pc', rb')"
  shows "lock_inv (s\<lparr>buffer := rb', task := (task s)(t := Dequeue pc')\<rparr>)"
proof (cases "in_cs (Dequeue pc)")
  case True
  show ?thesis
  proof (cases "in_cs (Dequeue pc')")
    case True
    with \<open>in_cs (Dequeue pc)\<close> assms(3) have "held rb' = held (buffer s)"
      by (cases pc) (auto split: if_splits option.splits)
    with True \<open>in_cs (Dequeue pc)\<close> assms show ?thesis
      by (intro lock_inv_same) auto
  next
    case False
    with \<open>in_cs (Dequeue pc)\<close> assms(3) have "held rb' = 0"
      by (cases pc) (auto split: if_splits option.splits)
    with False \<open>in_cs (Dequeue pc)\<close> assms show ?thesis
      by (intro lock_inv_leave) auto
  qed
next
  case False
  show ?thesis
  proof (cases "in_cs (Dequeue pc')")
    case True
    with False assms(3) have "held (buffer s) = 0 \<and> held rb' = 1"
      by (cases pc) (auto simp: compare_and_swap_def split: if_splits option.splits)
    with assms show ?thesis
      by (intro lock_inv_enter) auto
  next
    case F2: False
    with False assms(3) have "held rb' = held (buffer s)"
      by (cases pc) (auto simp: compare_and_swap_def split: if_splits option.splits)
    with False F2 assms show ?thesis
      by (intro lock_inv_same) auto
  qed
qed

lemma data_inv_update:
  assumes "nr_slots rb' = N" "0 \<le> count rb'" "count rb' \<le> N"
    and "0 \<le> in' rb'" "in' rb' < max 1 N" "0 \<le> out rb'" "out rb' < max 1 N"
    and "task_ok rb' k'" and "\<And>t'. t' \<noteq> t \<Longrightarrow> task_ok rb' (task s t')"
  shows "data_inv N (s\<lparr>buffer := rb', task := (task s)(t := k')\<rparr>)"
  using assms unfolding data_inv_def by simp

lemma others_ok:
  assumes "lock_inv s" "data_inv N s" "nr_slots rb' = nr_slots (buffer s)"
    and "count rb' \<noteq> count (buffer s) \<Longrightarrow> in_cs (task s t)" "t' \<noteq> t"
  shows "task_ok rb' (task s t')"
proof (cases "count rb' = count (buffer s)")
  case True
  with assms(2,3) show ?thesis
    using task_ok_cong [of rb' "buffer s" "task s t'"] by (simp add: data_inv_def)
next
  case False
  then have "in_cs (task s t)" by (rule assms(4))
  with assms(1,5) have "\<not> in_cs (task s t')"
    using lock_holder(2) by blast
  with assms(2,3) show ?thesis
    using task_ok_outside [of "task s t'" rb' "buffer s"] by (simp add: data_inv_def)
qed

lemma enq_data:
  assumes "lock_inv s" "data_inv N s" "task s t = Enqueue v pc"
    and "enqueue_step v pc (buffer s) = Inr (pc', rb')"
  shows "data_inv N (s\<lparr>buffer := rb', task := (task s)(t := Enqueue v pc')\<rparr>)"
proof (rule data_inv_update)
  have self: "task_ok (buffer s) (Enqueue v pc)"
    using assms(2,3) unfolding data_inv_def by metis
  have base: "nr_slots (buffer s) = N" "0 \<le> count (buffer s)" "count (buffer s) \<le> N"
    "0 \<le> in' (buffer s)" "in' (buffer s) < max 1 N" "0 \<le> out (buffer s)" "out (buffer s) < max 1 N"
    using assms(2) unfolding data_inv_def by simp_all
  show "nr_slots rb' = N" using assms(4) base
    by (cases pc) (auto simp: compare_and_swap_def split: if_splits option.splits)
  show "0 \<le> count rb'" using assms(4) base
    by (cases pc) (auto simp: compare_and_swap_def split: if_splits option.splits)
  show "count rb' \<le> N" using assms(4) base self
    by (cases pc) (auto simp: compare_and_swap_def split: if_splits option.splits)
  show "0 \<le> out rb'" "out rb' < max 1 N" using assms(4) base
    by (cases pc; auto simp: compare_and_swap_def split: if_splits option.splits)+
  show "0 \<le> in' rb'" using assms(4) base self
    by (cases pc) (auto simp: compare_and_swap_def smod_nonneg split: if_splits option.splits)
  show "in' rb' < max 1 N" using assms(4) base self
    by (cases pc) (auto simp: compare_and_swap_def smod_nonneg split: if_splits option.splits)
  show "task_ok rb' (Enqueue v pc')" using assms(4) base self
    by (cases pc) (auto simp: compare_and_swap_def split: if_splits option.splits)
  fix t' assume "t' \<noteq> t"
  have "nr_slots rb' = nr_slots (buffer s)" using assms(4)
    by (cases pc) (auto simp: compare_and_swap_def split: if_splits option.splits)
  moreover have "count rb' \<noteq> count (buffer s) \<Longrightarrow> in_cs (task s t)" using assms(3,4)
    by (cases pc) (auto simp: compare_and_swap_def split: if_splits option.splits)
  ultimately show "task_ok rb' (task s t')"
    using others_ok [OF assms(1,2)] \<open>t' \<noteq> t\<close> by blast
qed

lemma deq_data:
  assumes "lock_inv s" "data_inv N s" "task s t = Dequeue pc"
    and "dequeue_step pc (buffer s) = Inr (pc', rb')"
  shows "data_inv N (s\<lparr>buffer := rb', task := (task s)(t := Dequeue pc')\<rparr>)"
proof (rule data_inv_update)
  have self: "task_ok (buffer s) (Dequeue pc)"
    using assms(2,3) unfolding data_inv_def by metis
  have base: "nr_slots (buffer s) = N" "0 \<le> count (buffer s)" "count (buffer s) \<le> N"
    "0 \<le> in' (buffer s)" "in' (buffer s) < max 1 N" "0 \<le> out (buffer s)" "out (buffer s) < max 1 N"
    using assms(2) unfolding data_inv_def by simp_all
  show "nr_slots rb' = N" using assms(4) base
    by (cases pc) (auto simp: compare_and_swap_def split: if_splits option.splits)
  show "0 \<le> count rb'" using assms(4) base self
    by (cases pc) (auto simp: compare_and_swap_def split: if_splits option.splits)
  show "count rb' \<le> N" using assms(4) base self
    by (cases pc) (auto simp: compare_and_swap_def split: if_splits option.splits)
  show "0 \<le> in' rb'" "in' rb' < max 1 N" using assms(4) base
    by (cases pc; auto simp: compare_and_swap_def split: if_splits option.splits)+
  show "0 \<le> out rb'" using assms(4) base self
    by (cases pc) (auto simp: compare_and_swap_def smod_nonneg split: if_splits option.splits)
  show "out rb' < max 1 N" using assms(4) base self
    by (cases pc) (auto simp: compare_and_swap_def smod_nonneg split: if_splits option.splits)
  show "task_ok rb' (Dequeue pc')" using assms(4) base self
    by (cases pc) (auto simp: compare_and_swap_def split: if_splits option.splits)
  fix t' assume "t' \<noteq> t"
  have "nr_slots rb' = nr_slots (buffer s)" using assms(4)
    by (cases pc) (auto simp: compare_and_swap_def split: if_splits option.splits)
  moreover have "count rb' \<noteq> count (buffer s) \<Longrightarrow> in_cs (task s t)" using assms(3,4)
    by (cases pc) (auto simp: compare_and_swap_def split: if_splits option.splits)
  ultimately show "task_ok rb' (task s t')"
    using others_ok [OF assms(1,2)] \<open>t' \<noteq> t\<close> by blast
qed


lemma sys_inv_cong:
  "buffer s' = buffer s \<Longrightarrow> task s' = task s \<Longrightarrow> sys_inv N s' = sys_inv N s"
  by (simp add: sys_inv_def lock_inv_def data_inv_def)

lemma sys_inv_retask:
  assumes "sys_inv N s" "\<not> in_cs (task s t)" "\<not> in_cs k'" "task_ok (buffer s) k'"
  shows "sys_inv N (s\<lparr>task := (task s)(t := k')\<rparr>)"
proof -
  have "lock_inv (s\<lparr>buffer := buffer s, task := (task s)(t := k')\<rparr>)"
    using assms by (intro lock_inv_same) (auto simp: sys_inv_def)
  moreover have "data_inv N (s\<lparr>buffer := buffer s, task := (task s)(t := k')\<rparr>)"
    using assms by (intro data_inv_update) (auto simp: sys_inv_def data_inv_def)
  ultimately show ?thesis by (simp add: sys_inv_def)
qed

lemma sys_step_inv:
  assumes "sys_inv N s" "sys_step e s = Inr s'"
  shows "sys_inv N s'"
proof (cases e)
  case (Call_enqueue t v)
  show ?thesis
  proof (cases "task s t = Idle")
    case True
    then have "sys_inv N (s\<lparr>task := (task s)(t := Enqueue v Enq_245)\<rparr>)"
      using assms(1) by (intro sys_inv_retask) auto
    moreover have "s' = s\<lparr>task := (task s)(t := Enqueue v Enq_245), enqueued := enqueued s @ [v]\<rparr>"
      using assms(2) Call_enqueue True by simp
    ultimately show ?thesis
      using sys_inv_cong [of s' "s\<lparr>task := (task s)(t := Enqueue v Enq_245)\<rparr>" N] by simp
  next
    case False
    with assms Call_enqueue show ?thesis by simp
  qed
next
  case (Call_dequeue t)
  show ?thesis
  proof (cases "task s t = Idle")
    case True
    then have "sys_inv N (s\<lparr>task := (task s)(t := Dequeue Deq_273)\<rparr>)"
      using assms(1) by (intro sys_inv_retask) auto
    then show ?thesis using assms(2) Call_dequeue True by simp
  next
    case False
    with assms Call_dequeue show ?thesis by simp
  qed
next
  case (Step t)
  show ?thesis
  proof (cases "task s t")
    case Idle
    with assms Step show ?thesis by simp
  next
    case (Enqueue v pc)
    show ?thesis
    proof (cases "pc = Enq_ret")
      case True
      have "sys_inv N (s\<lparr>task := (task s)(t := Idle)\<rparr>)"
        using assms(1) Enqueue True by (intro sys_inv_retask) auto
      then show ?thesis using assms(2) Step Enqueue True by simp
    next
      case False
      then obtain pc' rb' where st: "enqueue_step v pc (buffer s) = Inr (pc', rb')"
        and s': "s' = s\<lparr>buffer := rb', task := (task s)(t := Enqueue v pc')\<rparr>"
        using assms(2) Step Enqueue by (cases pc) (auto split: sum.splits)
      show ?thesis unfolding s' sys_inv_def
        using enq_lock [OF _ Enqueue st] enq_data [OF _ _ Enqueue st] assms(1)
        by (simp add: sys_inv_def)
    qed
  next
    case (Dequeue pc)
    show ?thesis
    proof (cases "\<exists>r. pc = Deq_ret r")
      case True
      then obtain r where r: "pc = Deq_ret r" by blast
      have "sys_inv N (s\<lparr>task := (task s)(t := Idle)\<rparr>)"
        using assms(1) Dequeue r by (intro sys_inv_retask) auto
      moreover have "s' = s\<lparr>task := (task s)(t := Idle), dequeued := dequeued s @ [r]\<rparr>"
        using assms(2) Step Dequeue r by simp
      ultimately show ?thesis
        using sys_inv_cong [of s' "s\<lparr>task := (task s)(t := Idle)\<rparr>" N] by simp
    next
      case False
      then obtain pc' rb' where st: "dequeue_step pc (buffer s) = Inr (pc', rb')"
        and s': "s' = s\<lparr>buffer := rb', task := (task s)(t := Dequeue pc')\<rparr>"
        using assms(2) Step Dequeue by (cases pc) (auto split: sum.splits)
      show ?thesis unfolding s' sys_inv_def
        using deq_lock [OF _ Dequeue st] deq_data [OF _ _ Dequeue st] assms(1)
        by (simp add: sys_inv_def)
    qed
  qed
qed

lemma sys_run_inv:
  "sys_inv N s \<Longrightarrow> sys_run es s = Inr s' \<Longrightarrow> sys_inv N s'"
proof (induction es arbitrary: s)
  case Nil
  then show ?case by simp
next
  case (Cons e es)
  then show ?case
    by (cases "sys_step e s") (auto dest: sys_step_inv)
qed

lemma boot_inv: "0 \<le> N \<Longrightarrow> sys_inv N (boot m N)"
  by (simp add: sys_inv_def lock_inv_def data_inv_def boot_def init_ringbuffer_def ringbuffer0_def)

lemma slots_step:
  assumes "slots_inv N s" "sys_step e s = Inr s'"
  shows "slots_inv N s'"
proof (cases e)
  case (Step t)
  show ?thesis
  proof (cases "task s t")
    case Idle
    with assms Step show ?thesis by simp
  next
    case (Enqueue v pc)
    with assms Step show ?thesis
      by (cases pc)
         (auto simp: slots_inv_def compare_and_swap_def split: if_splits option.splits sum.splits)
  next
    case (Dequeue pc)
    with assms Step show ?thesis
      by (cases pc)
         (auto simp: slots_inv_def compare_and_swap_def split: if_splits option.splits sum.splits)
  qed
qed (use assms in \<open>auto simp: slots_inv_def split: if_splits\<close>)

lemma no_fault_step:
  assumes "sys_inv N s" "slots_inv N s" "0 < N" "is_c_int N"
  shows "\<exists>s'. sys_step e s = Inr s'"
proof (cases e)
  case (Step t)
  have ok: "task_ok (buffer s) (task s t)"
    and base: "nr_slots (buffer s) = N" "0 \<le> count (buffer s)" "count (buffer s) \<le> N"
      "0 \<le> in' (buffer s)" "in' (buffer s) < N" "0 \<le> out (buffer s)" "out (buffer s) < N"
    using assms(1,3) unfolding sys_inv_def data_inv_def by auto
  obtain xs where xs: "slots (buffer s) = Some xs" "int (length xs) = N"
    using assms(2) unfolding slots_inv_def by (auto split: option.splits)
  show ?thesis
  proof (cases "task s t")
    case Idle
    with Step show ?thesis by simp
  next
    case (Enqueue v pc)
    with Step ok base xs assms(3,4) show ?thesis
      by (cases pc)
         (auto simp: compare_and_swap_def is_c_int_def INT_MIN_def INT_MAX_def)
  next
    case (Dequeue pc)
    with Step ok base xs assms(3,4) show ?thesis
      by (cases pc)
         (auto simp: compare_and_swap_def is_c_int_def INT_MIN_def INT_MAX_def)
  qed
qed simp_all

lemma no_fault_run:
  assumes "0 < N" "is_c_int N"
  shows "sys_inv N s \<Longrightarrow> slots_inv N s \<Longrightarrow>
    \<exists>s'. sys_run es s = Inr s' \<and> sys_inv N s' \<and> slots_inv N s'"
proof (induction es arbitrary: s)
  case Nil
  then show ?case by simp
next
  case (Cons e es)
  from no_fault_step [OF Cons.prems assms] obtain s1 where s1: "sys_step e s = Inr s1"
    by blast
  then have "sys_inv N s1" "slots_inv N s1"
    using Cons.prems sys_step_inv slots_step by blast+
  from Cons.IH [OF this] s1 show ?case by simp
qed

lemma enqueue_full_spins:
  "count rb = nr_slots rb \<Longrightarrow> enqueue_run fuel v Enq_245 rb = Unfinished rb"
  by (induction fuel) auto

lemma dequeue_empty_spins:
  "count rb = 0 \<Longrightarrow> dequeue_run fuel Deq_273 rb = Unfinished rb"
  by (induction fuel) auto

lemma enqueue_full_frame:
  assumes "sys_inv N s" "count (buffer s) = N" "task s t = Enqueue v pc"
    and "sys_step (Step t) s = Inr s'"
  shows "same_contents (buffer s) (buffer s')"
proof -
  have "task_ok (buffer s) (Enqueue v pc)" "nr_slots (buffer s) = N"
    using assms(1,3) unfolding sys_inv_def data_inv_def by (metis, simp)
  with assms(2,3,4) show ?thesis
    by (cases pc)
       (auto simp: same_contents_def compare_and_swap_def split: if_splits option.splits sum.splits)
qed

lemma dequeue_empty_frame:
  assumes "sys_inv N s" "count (buffer s) = 0" "task s t = Dequeue pc"
    and "sys_step (Step t) s = Inr s'"
  shows "same_contents (buffer s) (buffer s')"
proof -
  have "task_ok (buffer s) (Dequeue pc)"
    using assms(1,3) unfolding sys_inv_def data_inv_def by metis
  with assms(2,3,4) show ?thesis
    by (cases pc)
       (auto simp: same_contents_def compare_and_swap_def split: if_splits option.splits sum.splits)
qed

lemma enqueue_run_7:
  assumes "rb_ready rb" "count rb < nr_slots rb"
  shows "enqueue_run (Suc (Suc (Suc (Suc (Suc (Suc (Suc k))))))) v Enq_245 rb =
    Returned () (rb\<lparr>slots := Some ((the (slots rb))[nat (in' rb) := v]),
         in' := (in' rb + 1) mod nr_slots rb, count := count rb + 1\<rparr>)"
  using assms
  by (auto simp: rb_ready_def compare_and_swap_def is_c_int_def INT_MAX_def INT_MIN_def
      smod_nonneg split: option.splits)

lemma dequeue_run_8:
  assumes "rb_ready rb" "0 < count rb"
  shows "dequeue_run (Suc (Suc (Suc (Suc (Suc (Suc (Suc (Suc k)))))))) Deq_273 rb =
    Returned (the (slots rb) ! nat (out rb))
      (rb\<lparr>out := (out rb + 1) mod nr_slots rb, count := count rb - 1\<rparr>)"
  using assms
  by (auto simp: rb_ready_def compare_and_swap_def is_c_int_def INT_MAX_def INT_MIN_def
      smod_nonneg split: option.splits)

lemma fuel_ge_7: "7 \<le> fuel \<Longrightarrow> \<exists>k. fuel = Suc (Suc (Suc (Suc (Suc (Suc (Suc k))))))"
  by (rule exI [of _ "fuel - 7"]) simp

lemma fuel_ge_8: "8 \<le> fuel \<Longrightarrow> \<exists>k. fuel = Suc (Suc (Suc (Suc (Suc (Suc (Suc (Suc k)))))))"
  by (rule exI [of _ "fuel - 8"]) simp


subsection \<open>The claims about the ring buffer\<close>

text \<open>Facts that evaluate the model on concrete inputs.\<close>

lemmas ev = boot_def init_ringbuffer_def ringbuffer0_def compare_and_swap_def is_c_int_def
  INT_MAX_def INT_MIN_def signed_modulo_int_def eval_nat_numeral list_add_tail_def
  list_first_entry_def list_del_init_def pthread_kill_def sigwait_def

text \<open>
  C1. \<^verbatim>\<open>init_ringbuffer\<close> is documented to return 0 on success and another value
  otherwise, and the claim has it return a nonzero status exactly when the allocation of
  the slots fails. The code returns 0 whatever \<^verbatim>\<open>malloc\<close> returned: here the allocation
  of 4 slots fails, the pointer \<^verbatim>\<open>slots\<close> is left \<^verbatim>\<open>NULL\<close>, and the status is 0.
\<close>

theorem init_ringbuffer_status_on_failed_allocation:
  "init_ringbuffer None 4 ringbuffer0 =
     (0, \<lparr>nr_slots = 4, slots = None, held = 0, count = 0, out = 0, in' = 0\<rparr>)"
  by (simp add: init_ringbuffer_def ringbuffer0_def)

text \<open>
  C4. In every state that any number of threads reach from \<^verbatim>\<open>init_ringbuffer(N)\<close>,
  \<open>N \<ge> 0\<close>, by any interleaving of the statements of their calls, the count is between
  0 and \<open>N\<close>. While the count is \<open>N\<close>, a call of enqueue started in that state spins
  without changing it for any amount of fuel, and no step of a thread inside enqueue
  changes the slots, the count or the indices; likewise for dequeue while the count is 0.
\<close>

theorem ringbuffer_bounded:
  assumes "0 \<le> N" and "sys_run es (boot m N) = Inr s"
  shows "0 \<le> count (buffer s) \<and> count (buffer s) \<le> N \<and>
    (count (buffer s) = N \<longrightarrow>
       (\<forall>fuel v. enqueue_into_ringbuffer fuel v (buffer s) = Unfinished (buffer s)) \<and>
       (\<forall>t v pc s'. task s t = Enqueue v pc \<and> sys_step (Step t) s = Inr s' \<longrightarrow>
          same_contents (buffer s) (buffer s'))) \<and>
    (count (buffer s) = 0 \<longrightarrow>
       (\<forall>fuel. dequeue_from_ringbuffer fuel (buffer s) = Unfinished (buffer s)) \<and>
       (\<forall>t pc s'. task s t = Dequeue pc \<and> sys_step (Step t) s = Inr s' \<longrightarrow>
          same_contents (buffer s) (buffer s')))"
proof -
  have inv: "sys_inv N s"
    using boot_inv [OF assms(1)] assms(2) by (rule sys_run_inv)
  then have n: "nr_slots (buffer s) = N" and c: "0 \<le> count (buffer s)" "count (buffer s) \<le> N"
    unfolding sys_inv_def data_inv_def by simp_all
  have "count (buffer s) = N \<Longrightarrow> enqueue_into_ringbuffer fuel v (buffer s) = Unfinished (buffer s)"
    for fuel v
    using n by (simp add: enqueue_into_ringbuffer_def enqueue_full_spins)
  moreover have "count (buffer s) = 0 \<Longrightarrow> dequeue_from_ringbuffer fuel (buffer s) = Unfinished (buffer s)"
    for fuel
    by (simp add: dequeue_from_ringbuffer_def dequeue_empty_spins)
  ultimately show ?thesis
    using c enqueue_full_frame [OF inv] dequeue_empty_frame [OF inv] by blast
qed

theorem ringbuffer_bounded_witness:
  "(case sys_run (Call_enqueue 0 5 # replicate 8 (Step 0) @ [Call_enqueue 1 6])
           (boot (Some [0]) 1) of
      Inl f \<Rightarrow> False
    | Inr s \<Rightarrow>
        count (buffer s) = 1 \<and> task s 1 = Enqueue 6 Enq_245 \<and>
        enqueue_into_ringbuffer 9 7 (buffer s) = Unfinished (buffer s) \<and>
        (case sys_step (Step 1) s of
           Inl f \<Rightarrow> False
         | Inr s' \<Rightarrow> same_contents (buffer s) (buffer s'))) \<and>
   (case sys_run [Call_dequeue 2] (boot (Some [0]) 1) of
      Inl f \<Rightarrow> False
    | Inr s \<Rightarrow>
        count (buffer s) = 0 \<and> task s 2 = Dequeue Deq_273 \<and>
        dequeue_from_ringbuffer 9 (buffer s) = Unfinished (buffer s) \<and>
        (case sys_step (Step 2) s of
           Inl f \<Rightarrow> False
         | Inr s' \<Rightarrow> same_contents (buffer s) (buffer s')))"
proof -
  let ?full = "sys_run (Call_enqueue 0 5 # replicate 8 (Step 0) @ [Call_enqueue 1 6])
    (boot (Some [0]) 1)"
  let ?empty = "sys_run [Call_dequeue 2] (boot (Some [0]) 1)"
  have "case ?full of Inl f \<Rightarrow> False
    | Inr s \<Rightarrow> count (buffer s) = 1 \<and> task s 1 = Enqueue 6 Enq_245 \<and>
        (case sys_step (Step 1) s of Inl f \<Rightarrow> False | Inr s' \<Rightarrow> True)"
    by (simp add: ev)
  then obtain s s' where full: "?full = Inr s" "count (buffer s) = 1"
    "task s 1 = Enqueue 6 Enq_245" "sys_step (Step 1) s = Inr s'"
    by (auto split: sum.splits)
  have "case ?empty of Inl f \<Rightarrow> False
    | Inr s \<Rightarrow> count (buffer s) = 0 \<and> task s 2 = Dequeue Deq_273 \<and>
        (case sys_step (Step 2) s of Inl f \<Rightarrow> False | Inr s' \<Rightarrow> True)"
    by (simp add: ev)
  then obtain u u' where empty: "?empty = Inr u" "count (buffer u) = 0"
    "task u 2 = Dequeue Deq_273" "sys_step (Step 2) u = Inr u'"
    by (auto split: sum.splits)
  have one: "(0::int) \<le> 1" by simp
  from ringbuffer_bounded [OF one full(1)] full(2,3,4)
  have a: "enqueue_into_ringbuffer 9 7 (buffer s) = Unfinished (buffer s)"
    "same_contents (buffer s) (buffer s')"
    by blast+
  from ringbuffer_bounded [OF one empty(1)] empty(2,3,4)
  have b: "dequeue_from_ringbuffer 9 (buffer u) = Unfinished (buffer u)"
    "same_contents (buffer u) (buffer u')"
    by blast+
  show ?thesis
    using full empty a b by simp
qed

text \<open>
  C5. In a well-formed buffer state that is not full, a call of enqueue returns (7
  statements suffice) having stored the value in the slot at the head index \<^verbatim>\<open>in\<close>,
  advanced that index by one modulo the capacity and incremented the count; every other
  slot is as it was.
\<close>

theorem enqueue_stores_at_head:
  assumes "rb_ready rb" and "count rb < nr_slots rb" and "7 \<le> fuel"
  shows "\<exists>xs. slots rb = Some xs \<and>
    enqueue_into_ringbuffer fuel v rb =
      Returned () (rb\<lparr>slots := Some (xs[nat (in' rb) := v]),
        in' := (in' rb + 1) mod nr_slots rb, count := count rb + 1\<rparr>) \<and>
    (xs[nat (in' rb) := v]) ! nat (in' rb) = v \<and>
    (\<forall>j. j \<noteq> nat (in' rb) \<longrightarrow> (xs[nat (in' rb) := v]) ! j = xs ! j)"
proof -
  obtain xs where xs: "slots rb = Some xs" "int (length xs) = nr_slots rb"
    using assms(1) unfolding rb_ready_def by (auto split: option.splits)
  obtain k where "fuel = Suc (Suc (Suc (Suc (Suc (Suc (Suc k))))))"
    using fuel_ge_7 [OF assms(3)] by blast
  then have "enqueue_into_ringbuffer fuel v rb =
      Returned () (rb\<lparr>slots := Some (xs[nat (in' rb) := v]),
        in' := (in' rb + 1) mod nr_slots rb, count := count rb + 1\<rparr>)"
    using enqueue_run_7 [OF assms(1,2)] xs by (simp add: enqueue_into_ringbuffer_def)
  moreover have "nat (in' rb) < length xs"
    using assms(1) xs unfolding rb_ready_def by auto
  ultimately show ?thesis using xs by auto
qed

theorem enqueue_stores_at_head_witness:
  "rb_ready \<lparr>nr_slots = 3, slots = Some [10, 20, 30], held = 0, count = 1, out = 2, in' = 0\<rparr> \<and>
   enqueue_into_ringbuffer 7 99
     \<lparr>nr_slots = 3, slots = Some [10, 20, 30], held = 0, count = 1, out = 2, in' = 0\<rparr> =
   Returned () \<lparr>nr_slots = 3, slots = Some [99, 20, 30], held = 0, count = 2, out = 2, in' = 1\<rparr>"
proof -
  let ?rb = "\<lparr>nr_slots = 3, slots = Some [10, 20, 30], held = 0, count = 1, out = 2, in' = 0\<rparr>"
  have r: "rb_ready ?rb"
    by (simp add: rb_ready_def is_c_int_def INT_MAX_def INT_MIN_def)
  have c: "count ?rb < nr_slots ?rb" by simp
  from enqueue_stores_at_head [OF r c, of 7 99] r show ?thesis by simp
qed

text \<open>
  C6. In a well-formed buffer state that is not empty, a call of dequeue returns (8
  statements suffice) the value stored at the tail index \<^verbatim>\<open>out\<close>, having advanced that
  index by one modulo the capacity and decremented the count.
\<close>

theorem dequeue_returns_tail:
  assumes "rb_ready rb" and "0 < count rb" and "8 \<le> fuel"
  shows "\<exists>xs. slots rb = Some xs \<and>
    dequeue_from_ringbuffer fuel rb =
      Returned (xs ! nat (out rb))
        (rb\<lparr>out := (out rb + 1) mod nr_slots rb, count := count rb - 1\<rparr>)"
proof -
  obtain xs where xs: "slots rb = Some xs"
    using assms(1) unfolding rb_ready_def by (auto split: option.splits)
  obtain k where "fuel = Suc (Suc (Suc (Suc (Suc (Suc (Suc (Suc k)))))))"
    using fuel_ge_8 [OF assms(3)] by blast
  then show ?thesis
    using dequeue_run_8 [OF assms(1,2)] xs by (simp add: dequeue_from_ringbuffer_def)
qed

theorem dequeue_returns_tail_witness:
  "rb_ready \<lparr>nr_slots = 3, slots = Some [10, 20, 30], held = 0, count = 1, out = 2, in' = 0\<rparr> \<and>
   dequeue_from_ringbuffer 8
     \<lparr>nr_slots = 3, slots = Some [10, 20, 30], held = 0, count = 1, out = 2, in' = 0\<rparr> =
   Returned 30 \<lparr>nr_slots = 3, slots = Some [10, 20, 30], held = 0, count = 0, out = 0, in' = 0\<rparr>"
proof -
  let ?rb = "\<lparr>nr_slots = 3, slots = Some [10, 20, 30], held = 0, count = 1, out = 2, in' = 0\<rparr>"
  have r: "rb_ready ?rb"
    by (simp add: rb_ready_def is_c_int_def INT_MAX_def INT_MIN_def)
  have c: "0 < count ?rb" by simp
  from dequeue_returns_tail [OF r c, of 8] r show ?thesis by simp
qed

text \<open>
  C7. With one producer and one consumer, the values dequeued are the values enqueued,
  in order. The code reads the slot in line 286, after line 285 has released the lock:
  on \<open>race_schedule\<close> the producer (thread 0) enqueues 1 and then 2 into a buffer of
  one slot, and the first value the consumer (thread 1) gets is 2.
\<close>

theorem dequeue_read_races_with_enqueue:
  "case sys_run race_schedule (boot (Some [0]) 1) of
     Inl f \<Rightarrow> False
   | Inr s \<Rightarrow> enqueued s = [1, 2] \<and> dequeued s = [2]"
  by (simp add: race_schedule_def ev)

text \<open>
  C9. After \<^verbatim>\<open>init_ringbuffer(N)\<close> with \<open>N > 0\<close> and a successful allocation, whatever
  the threads do and however their statements interleave, no step faults (so every slot
  read and write is inside the block, and no arithmetic overflows), both indices stay
  in \<open>[0, N)\<close>, the block keeps its \<open>N\<close> cells, and the index \<^verbatim>\<open>tmp\<close> that line 286
  reads at is in \<open>[0, N)\<close>.
\<close>

theorem ringbuffer_indices_in_range:
  assumes "0 < N" and "is_c_int N" and "int (length xs) = N"
  shows "\<exists>s. sys_run es (boot (Some xs) N) = Inr s \<and>
    0 \<le> in' (buffer s) \<and> in' (buffer s) < N \<and> 0 \<le> out (buffer s) \<and> out (buffer s) < N \<and>
    (\<exists>ys. slots (buffer s) = Some ys \<and> int (length ys) = N) \<and>
    (\<forall>t tmp. task s t = Dequeue (Deq_286 tmp) \<longrightarrow> 0 \<le> tmp \<and> tmp < N)"
proof -
  have "sys_inv N (boot (Some xs) N)"
    using assms(1) by (intro boot_inv) simp
  moreover have "slots_inv N (boot (Some xs) N)"
    using assms(3) by (simp add: slots_inv_def boot_def init_ringbuffer_def)
  ultimately obtain s where s: "sys_run es (boot (Some xs) N) = Inr s"
    "sys_inv N s" "slots_inv N s"
    using no_fault_run [OF assms(1,2)] by blast
  have "task s t = Dequeue (Deq_286 tmp) \<Longrightarrow> 0 \<le> tmp \<and> tmp < N" for t tmp
  proof -
    assume a: "task s t = Dequeue (Deq_286 tmp)"
    have "task_ok (buffer s) (task s t)" "nr_slots (buffer s) = N"
      using s(2) unfolding sys_inv_def data_inv_def by simp_all
    with a show ?thesis by simp
  qed
  moreover have "0 \<le> in' (buffer s)" "in' (buffer s) < N" "0 \<le> out (buffer s)" "out (buffer s) < N"
    using s(2) assms(1) unfolding sys_inv_def data_inv_def by auto
  moreover have "\<exists>ys. slots (buffer s) = Some ys \<and> int (length ys) = N"
    using s(3) unfolding slots_inv_def by (auto split: option.splits)
  ultimately show ?thesis using s(1) by blast
qed

theorem ringbuffer_indices_in_range_witness:
  "0 < (2::int) \<and> is_c_int 2 \<and> int (length [0, 0 :: int]) = 2 \<and>
   (\<exists>s. sys_run (Call_enqueue 0 5 # replicate 8 (Step 0) @ Call_dequeue 1 # replicate 7 (Step 1))
           (boot (Some [0, 0]) 2) = Inr s \<and>
      0 \<le> in' (buffer s) \<and> in' (buffer s) < 2 \<and> 0 \<le> out (buffer s) \<and> out (buffer s) < 2 \<and>
      task s 1 = Dequeue (Deq_286 0))"
proof -
  let ?es = "Call_enqueue 0 5 # replicate 8 (Step 0) @ Call_dequeue 1 # replicate 7 (Step 1)"
  have h: "0 < (2::int)" "is_c_int 2" "int (length [0, 0 :: int]) = 2"
    by (simp_all add: is_c_int_def INT_MAX_def INT_MIN_def)
  from ringbuffer_indices_in_range [OF h, of ?es]
  obtain s where s: "sys_run ?es (boot (Some [0, 0]) 2) = Inr s"
    "0 \<le> in' (buffer s)" "in' (buffer s) < 2" "0 \<le> out (buffer s)" "out (buffer s) < 2"
    by blast
  have "case sys_run ?es (boot (Some [0, 0]) 2) of Inl f \<Rightarrow> False
    | Inr s \<Rightarrow> task s 1 = Dequeue (Deq_286 0)"
    by (simp add: ev)
  with s(1) have "task s 1 = Dequeue (Deq_286 0)" by simp
  with s h show ?thesis by blast
qed


section \<open>Properties of the mutex\<close>

subsection \<open>What the operations do when run without interference\<close>

lemmas mutex_os_defs = list_add_tail_def list_first_entry_def list_del_init_def
  pthread_kill_def sigwait_def

lemma acquire_fast:
  assumes "mutex_held w = 0" "is_c_int (S w)" "1 \<le> S w"
    and "case new of None \<Rightarrow> True | Some a \<Rightarrow> heap w a = None"
  shows "acquire_mutex (Suc (Suc (Suc (Suc (Suc (Suc n)))))) self new w =
    Returned () (w\<lparr>S := S w - 1\<rparr>)"
  using assms
  by (cases w; cases new)
     (auto simp: acquire_mutex_def compare_and_swap_def is_c_int_def INT_MIN_def INT_MAX_def
        fun_upd_idem mutex_os_defs)

lemma acquire_slow:
  assumes "mutex_held w = 0" "is_c_int (S w - 1)" "S w \<le> 0" "self \<notin> pending w"
  shows "acquire_mutex (Suc (Suc (Suc (Suc (Suc (Suc (Suc (Suc (Suc n))))))))) self (Some a) w =
     Suspended (w\<lparr>S := S w - 1, heap := (heap w)(a \<mapsto> Some self), Q := Q w @ [a],
        parked := parked w @ [self]\<rparr>)"
  using assms
  by (cases w) (simp add: acquire_mutex_def compare_and_swap_def mutex_os_defs)

lemma release_wake:
  assumes "mutex_held w = 0" "is_c_int (S w + 1)" "S w + 1 \<le> 0" "Q w = a # rest"
    and "heap w a = Some (Some p)"
  shows "release_mutex (Suc (Suc (Suc (Suc (Suc (Suc (Suc (Suc n)))))))) w =
     Returned () (w\<lparr>S := S w + 1, Q := rest, pending := insert p (pending w),
        woken := woken w @ [p]\<rparr>)"
  using assms
  by (cases w) (simp add: release_mutex_def compare_and_swap_def mutex_os_defs)

lemma release_free:
  assumes "mutex_held w = 0" "is_c_int (S w + 1)" "0 < S w + 1"
  shows "release_mutex (Suc (Suc (Suc (Suc n)))) w = Returned () (w\<lparr>S := S w + 1\<rparr>)"
  using assms
  by (cases w) (simp add: release_mutex_def compare_and_swap_def mutex_os_defs)

lemma resume:
  assumes "mutex_held w = 0" "self \<in> pending w"
  shows "acquire_wait (Suc (Suc (Suc (Suc (Suc n))))) self a w =
     Returned () (w\<lparr>pending := pending w - {self}, heap := (heap w)(a := None)\<rparr>)"
  using assms
  by (cases w) (simp add: acquire_wait_def compare_and_swap_def mutex_os_defs)

subsection \<open>The claims about the mutex\<close>

lemma fuel_ge_6: "6 \<le> fuel \<Longrightarrow> \<exists>k. fuel = Suc (Suc (Suc (Suc (Suc (Suc k)))))"
  by (rule exI [of _ "fuel - 6"]) simp

text \<open>
  C2. Every call of \<^verbatim>\<open>release_mutex\<close> that finds the incremented \<^verbatim>\<open>S\<close> at most 0
  removes the head of the queue and signals the thread of that record. After
  \<open>double_unlock_schedule\<close> thread 2 is inside its critical section and calls
  \<^verbatim>\<open>release_mutex\<close>: it takes the flag, increments \<^verbatim>\<open>S\<close> to 0 and finds it at most 0
  in line 207, and the queue is empty, so that line 209 has no head to take.
\<close>

theorem release_finds_empty_queue:
  "(case msys_run (double_unlock_schedule @ Call_release 2 # replicate 3 (Run 2)) mboot of
      Inl f \<Rightarrow> False
    | Inr s \<Rightarrow> mtask s 2 = Releasing Rel_209 \<and> S (shared s) = 0 \<and> Q (shared s) = []) \<and>
   msys_run (double_unlock_schedule @ Call_release 2 # replicate 4 (Run 2)) mboot =
     Inl Empty_List"
  by (simp add: double_unlock_schedule_def mboot_def init_mutex_def world0_def ev)

text \<open>
  C3. In every state of the mutex reached from \<^verbatim>\<open>init_mutex\<close> by calls of
  \<^verbatim>\<open>acquire_mutex\<close> and \<^verbatim>\<open>release_mutex\<close>, whenever \<^verbatim>\<open>S\<close> is at most 0 the queue has
  exactly \<open>- S\<close> entries. When \<open>double_unlock_schedule\<close> is over and thread 0 has
  returned, no call is in progress, every release has followed the return of the
  matching acquire, \<^verbatim>\<open>S\<close> is \<open>- 1\<close> and the queue is empty.
\<close>

theorem counter_negative_with_empty_queue:
  "case msys_run (double_unlock_schedule @ [Run 0]) mboot of
     Inl f \<Rightarrow> False
   | Inr s \<Rightarrow>
       S (shared s) = - 1 \<and> Q (shared s) = [] \<and> mutex_held (shared s) = 0 \<and>
       mtask s 2 = Inside \<and> mtask s 3 = Inside \<and>
       (\<forall>t. mtask s t = Outside \<or> mtask s t = Inside)"
  by (simp add: double_unlock_schedule_def mboot_def init_mutex_def world0_def ev)

text \<open>
  C8. No two threads are at the same time inside a critical section bounded by matching
  calls of acquire and release of the same mutex, whatever the interleaving. On
  \<open>double_unlock_schedule\<close>, in which every thread calls \<^verbatim>\<open>release_mutex\<close> only after
  its \<^verbatim>\<open>acquire_mutex\<close> has returned, the threads 2 and 3 are both inside: line 216
  clears the flag \<^verbatim>\<open>held\<close> that line 211 has released already and that another thread
  has taken since.
\<close>

theorem mutex_double_unlock_breaks_exclusion:
  "case msys_run double_unlock_schedule mboot of
     Inl f \<Rightarrow> False
   | Inr s \<Rightarrow> mtask s 2 = Inside \<and> mtask s 3 = Inside"
  by (simp add: double_unlock_schedule_def mboot_def init_mutex_def world0_def ev)

text \<open>
  C10. A call of \<^verbatim>\<open>acquire_mutex\<close> on a mutex whose lock flag is free and whose \<^verbatim>\<open>S\<close>
  is at least 1 returns (6 statements suffice), and the state it leaves differs from the
  state before the call in \<^verbatim>\<open>S\<close> alone, which is one less: the queue is as it was,
  and so is the heap, where the record that \<^verbatim>\<open>malloc\<close> had returned is released again.
\<close>

theorem acquire_mutex_fast_path:
  assumes "mutex_held w = 0" and "is_c_int (S w)" and "1 \<le> S w"
    and "case new of None \<Rightarrow> True | Some a \<Rightarrow> heap w a = None"
    and "6 \<le> fuel"
  shows "acquire_mutex fuel self new w = Returned () (w\<lparr>S := S w - 1\<rparr>)"
proof -
  obtain k where "fuel = Suc (Suc (Suc (Suc (Suc (Suc k)))))"
    using fuel_ge_6 [OF assms(5)] by blast
  then show ?thesis using acquire_fast [OF assms(1-4)] by simp
qed

theorem acquire_mutex_fast_path_witness:
  "acquire_mutex 6 1 (Some 3) (init_mutex world0) =
   Returned ()
     \<lparr>Q = [], S = 0, mutex_held = 0, heap = Map.empty, pending = {}, parked = [], woken = []\<rparr>"
proof -
  have "mutex_held (init_mutex world0) = 0" "is_c_int (S (init_mutex world0))"
    "1 \<le> S (init_mutex world0)"
    "case Some 3 of None \<Rightarrow> True | Some a \<Rightarrow> heap (init_mutex world0) a = None"
    "(6::nat) \<le> 6"
    by (simp_all add: init_mutex_def world0_def ev)
  from acquire_mutex_fast_path [OF this, of 1] show ?thesis
    by (simp add: init_mutex_def world0_def)
qed

end
